theory Spec2Isabelle
  imports Complex_Main
begin

section \<open>The Flyer devices of the notebook "Flyer Basics"\<close>

text \<open>
  Python floats (the results of \<^verbatim>\<open>time.time()\<close> and their differences) are modelled
  as exact rationals. Every call of \<^verbatim>\<open>time.time()\<close> is an input of the model: the
  operation that makes the call takes the reading as an argument.
\<close>

datatype error = RuntimeError string

text \<open>
  \<^verbatim>\<open>ophyd.DeviceStatus(self)\<close> makes a status object that is not done;
  \<^verbatim>\<open>st._finished(success=True)\<close> marks it done (field \<open>is_done\<close> is the attribute
  \<^verbatim>\<open>done\<close>).
\<close>

record device_status =
  is_done :: bool
  success :: bool

definition DeviceStatus :: device_status where
  "DeviceStatus = \<lparr>is_done = False, success = False\<rparr>"

definition finished :: "bool \<Rightarrow> device_status \<Rightarrow> device_status" where
  "finished ok st = (if is_done st then st else \<lparr>is_done = True, success = ok\<rparr>)"

text \<open>The dictionaries yielded by \<^verbatim>\<open>collect()\<close>: keys \<^verbatim>\<open>time\<close>, \<^verbatim>\<open>data\<close>, \<^verbatim>\<open>timestamps\<close>.\<close>

record event =
  time :: rat
  data :: "string \<rightharpoonup> rat"
  timestamps :: "string \<rightharpoonup> rat"

subsection \<open>BareMinimumFlyer\<close>

text \<open>
  \<^verbatim>\<open>BareMinimumFlyer\<close> keeps no state: \<^verbatim>\<open>kickoff()\<close> and \<^verbatim>\<open>complete()\<close> each make
  a fresh status, finish it and return it; \<^verbatim>\<open>collect()\<close> yields one event without data.
\<close>

definition bare_kickoff :: "error + device_status" where
  "bare_kickoff = Inr (finished True DeviceStatus)"

definition bare_complete :: "error + device_status" where
  "bare_complete = Inr (finished True DeviceStatus)"

definition bare_collect :: "rat \<Rightarrow> event list" where
  "bare_collect now = [\<lparr>time = now, data = Map.empty, timestamps = Map.empty\<rparr>]"

subsection \<open>MyFlyer, the version that reports a 1-D array\<close>

text \<open>
  The notebook defines the class \<^verbatim>\<open>MyFlyer\<close> three times. The last definition is the one
  modelled; the two before it have the same \<^verbatim>\<open>my_activity\<close> and \<^verbatim>\<open>complete\<close>, a
  \<^verbatim>\<open>kickoff\<close> without \<^verbatim>\<open>t0\<close> and a \<^verbatim>\<open>collect\<close> that yields one event.

  A status object of \<^verbatim>\<open>MyFlyer\<close> is shared: \<^verbatim>\<open>kickoff\<close> returns the very object that
  the thread finishes later. The status objects therefore live in a store, \<open>statuses\<close>,
  and are named by their position in it; \<^verbatim>\<open>kickoff_status\<close> and \<^verbatim>\<open>complete_status\<close>
  hold such references. \<^verbatim>\<open>kickoff_status\<close> does not exist before the first
  \<^verbatim>\<open>kickoff()\<close>; that is \<open>None\<close> here. \<open>threads\<close> counts the \<^verbatim>\<open>my_activity\<close> threads
  that were started and have not run yet. The Flyer is idle when
  \<^verbatim>\<open>complete_status is None\<close>.
\<close>

record flyer =
  statuses :: "device_status list"
  kickoff_status :: "nat option"
  complete_status :: "nat option"
  t0 :: rat
  threads :: nat

definition MyFlyer :: flyer where
  "MyFlyer = \<lparr>statuses = [], kickoff_status = None, complete_status = None, t0 = 0,
              threads = 0\<rparr>"

text \<open>\<^verbatim>\<open>st._finished(success=True)\<close> on the status object that the reference \<open>a\<close> names.\<close>

definition finish :: "nat \<Rightarrow> flyer \<Rightarrow> flyer" where
  "finish a f = f\<lparr>statuses := (statuses f)[a := finished True (statuses f ! a)]\<rparr>"

text \<open>
  \<^verbatim>\<open>my_activity\<close> is the body of the thread that \<^verbatim>\<open>kickoff\<close> starts: it returns at once
  when \<^verbatim>\<open>complete_status is None\<close>, and otherwise finishes the object that
  \<^verbatim>\<open>kickoff_status\<close> names at that moment and then the object that \<^verbatim>\<open>complete_status\<close>
  names.
\<close>

definition my_activity :: "flyer \<Rightarrow> flyer" where
  "my_activity f =
     (case complete_status f of
        None \<Rightarrow> f
      | Some c \<Rightarrow> (case kickoff_status f of None \<Rightarrow> f | Some k \<Rightarrow> finish c (finish k f)))"

text \<open>
  One started thread runs its body. The step can be taken at any moment after
  \<^verbatim>\<open>thread.start()\<close>, also before \<^verbatim>\<open>kickoff\<close> has returned: \<^verbatim>\<open>kickoff\<close> does nothing
  between the start of the thread and its \<^verbatim>\<open>return\<close>, so both orders give the state
  \<open>run_thread\<close> gives after \<^verbatim>\<open>kickoff\<close>.
\<close>

definition run_thread :: "flyer \<Rightarrow> flyer" where
  "run_thread f = (if threads f = 0 then f else my_activity (f\<lparr>threads := threads f - 1\<rparr>))"

text \<open>
  \<^verbatim>\<open>kickoff\<close> has no guard and no \<^verbatim>\<open>raise\<close>: it makes two new status objects and stores
  them in \<^verbatim>\<open>kickoff_status\<close> and \<^verbatim>\<open>complete_status\<close>, records the clock reading in
  \<^verbatim>\<open>t0\<close>, starts a thread on \<^verbatim>\<open>my_activity\<close> and returns the object in
  \<^verbatim>\<open>kickoff_status\<close>.
\<close>

definition kickoff :: "rat \<Rightarrow> flyer \<Rightarrow> error + (nat \<times> flyer)" where
  "kickoff now f =
     (let k = length (statuses f); c = Suc k
      in Inr (k, f\<lparr>statuses := statuses f @ [DeviceStatus, DeviceStatus],
                   kickoff_status := Some k,
                   complete_status := Some c,
                   t0 := now,
                   threads := Suc (threads f)\<rparr>))"

text \<open>
  \<^verbatim>\<open>complete\<close> raises \<^verbatim>\<open>RuntimeError("No collection in progress")\<close> when
  \<^verbatim>\<open>complete_status is None\<close> and returns \<^verbatim>\<open>complete_status\<close> otherwise.
\<close>

definition complete :: "flyer \<Rightarrow> error + (nat \<times> flyer)" where
  "complete f =
     (case complete_status f of
        None \<Rightarrow> Inl (RuntimeError ''No collection in progress'')
      | Some st \<Rightarrow> Inr (st, f))"

text \<open>
  \<^verbatim>\<open>collect\<close> is a generator function: the call runs none of its body. The body runs
  piecewise, one piece for each \<^verbatim>\<open>next\<close>. \<open>Suspended k\<close> is the generator paused at the
  \<^verbatim>\<open>yield\<close> of iteration \<open>k\<close> of \<^verbatim>\<open>for _ in range(5)\<close>.
\<close>

datatype generator = Created | Suspended nat | Exhausted

definition collect :: "flyer \<Rightarrow> error + (generator \<times> flyer)" where
  "collect f = Inr (Created, f)"

definition mk_event :: "rat \<Rightarrow> rat \<Rightarrow> event" where
  "mk_event t x = \<lparr>time = t, data = [''x'' \<mapsto> x], timestamps = [''x'' \<mapsto> t]\<rparr>"

text \<open>
  One \<^verbatim>\<open>next(g)\<close>; \<open>None\<close> is \<^verbatim>\<open>StopIteration\<close>. The first \<^verbatim>\<open>next\<close> runs
  \<^verbatim>\<open>self.complete_status = None\<close> and then the first iteration up to its \<^verbatim>\<open>yield\<close>.
  \<open>now\<close> is what \<^verbatim>\<open>time.time()\<close> returns if this piece calls it.
\<close>

fun gen_next :: "rat \<Rightarrow> flyer \<times> generator \<Rightarrow> event option \<times> flyer \<times> generator" where
  "gen_next now (f, Created) =
     (let f' = f\<lparr>complete_status := None\<rparr>
      in (Some (mk_event now (now - t0 f')), f', Suspended 0))"
| "gen_next now (f, Suspended k) =
     (if Suc k < 5 then (Some (mk_event now (now - t0 f)), f, Suspended (Suc k))
      else (None, f, Exhausted))"
| "gen_next now (f, Exhausted) = (None, f, Exhausted)"

text \<open>A bound on the number of \<^verbatim>\<open>next\<close> calls that a generator still answers with an event.\<close>

fun remaining :: "generator \<Rightarrow> nat" where
  "remaining Created = 6"
| "remaining (Suspended k) = 5 - k"
| "remaining Exhausted = 0"

text \<open>
  \<^verbatim>\<open>list(g)\<close>: \<^verbatim>\<open>next\<close> until \<^verbatim>\<open>StopIteration\<close>. \<open>clock n\<close> is the reading of the
  \<open>n\<close>-th call of \<^verbatim>\<open>time.time()\<close>.
\<close>

function list_gen :: "(nat \<Rightarrow> rat) \<Rightarrow> nat \<Rightarrow> flyer \<times> generator \<Rightarrow> event list \<times> flyer \<times> generator" where
  "list_gen clock n fg =
     (case gen_next (clock n) fg of
        (None, fg') \<Rightarrow> ([], fg')
      | (Some e, fg') \<Rightarrow> (case list_gen clock (Suc n) fg' of (es, fg'') \<Rightarrow> (e # es, fg'')))"
  by pat_completeness auto
termination
proof (relation "measure (\<lambda>(clock, n, f, g). remaining g)")
  show "wf (measure (\<lambda>(clock, n, f, g). remaining g))" by simp
next
  fix clock :: "nat \<Rightarrow> rat" and n fg x1 fg' e
  assume "(x1, fg') = gen_next (clock n) fg" and "x1 = Some e"
  then have "gen_next (clock n) fg = (Some e, fg')" by simp
  then show "((clock, Suc n, fg'), (clock, n, fg)) \<in> measure (\<lambda>(clock, n, f, g). remaining g)"
    by (cases fg; cases "snd fg") (auto split: if_splits)
qed

text \<open>The state used in the examples: a Flyer kicked off at time 1 whose thread has run.\<close>

definition flying :: flyer where
  "flying = run_thread (snd (projr (kickoff 1 MyFlyer)))"

section \<open>The stream alignment of the notebook "Combining Asynchronous Data Streams"\<close>

text \<open>
  The notebook aligns two tables with calls of the pandas library:
  \<^verbatim>\<open>pd.concat([...], axis=0)\<close>, \<^verbatim>\<open>set_index('time').sort_index()\<close>, \<^verbatim>\<open>ffill()\<close>,
  \<^verbatim>\<open>interpolate('linear')\<close> and \<^verbatim>\<open>rolling(window=3).mean()\<close>. The notebook holds the
  calls; pandas itself is not in the repository. A call is modelled from section 4.6 of
  the specification where the pandas documentation of the call says the same, and from the
  pandas documentation of the call, with the defaults the notebook leaves in place, where
  the two differ (\<^verbatim>\<open>interpolate\<close>).

  A table is kept as it is after \<^verbatim>\<open>set_index('time')\<close>: a list of rows, each the time
  of the row and its cells. A cell that is \<open>None\<close> is \<^verbatim>\<open>NaN\<close>: an empty cell, or a column
  the row's table does not have.
\<close>

type_synonym cells = "string \<rightharpoonup> rat"
type_synonym row = "rat \<times> cells"
type_synonym table = "row list"

text \<open>
  Modelled from the spec: \<^verbatim>\<open>pd.concat(tables, axis=0)\<close> (pandas, missing from the
  source), section 4.6: "union all rows by timestamp, leaving absent columns empty". The
  rows of the tables follow one another.
\<close>

definition concat_tables :: "table list \<Rightarrow> table" where
  "concat_tables ts = concat ts"

text \<open>
  Modelled from the spec: \<^verbatim>\<open>sort_index()\<close> (pandas, missing from the source), section
  4.6: "after sorting by time". Rows of equal time keep their order.
\<close>

definition sort_index :: "table \<Rightarrow> table" where
  "sort_index t = sort_key fst t"

text \<open>One column of a table, from the first row to the last.\<close>

definition column :: "string \<Rightarrow> table \<Rightarrow> rat option list" where
  "column c t = map (\<lambda>r. snd r c) t"

text \<open>
  Modelled from the spec: the policies of section 4.6 work on each column by itself, as
  the pandas calls do (pandas, missing from the source). \<open>apply_columns f\<close> replaces
  every column by its image under \<open>f\<close> and keeps the times of the rows.
\<close>

definition apply_columns :: "(rat option list \<Rightarrow> rat option list) \<Rightarrow> table \<Rightarrow> table" where
  "apply_columns f t = map (\<lambda>(i, r). (fst r, \<lambda>c. f (column c t) ! i)) (enumerate 0 t)"

text \<open>
  Modelled from the spec: \<^verbatim>\<open>ffill()\<close> on one column (pandas, missing from the source),
  section 4.6: "each empty cell takes the most recent preceding non-empty value in its
  column; leading gaps remain empty". The column is walked from its first row down, with
  the last valid value seen so far.
\<close>

fun ffill_col :: "rat option \<Rightarrow> rat option list \<Rightarrow> rat option list" where
  "ffill_col last_seen [] = []"
| "ffill_col last_seen (None # xs) = last_seen # ffill_col last_seen xs"
| "ffill_col last_seen (Some v # xs) = Some v # ffill_col (Some v) xs"

definition ffill :: "table \<Rightarrow> table" where
  "ffill t = apply_columns (ffill_col None) t"

text \<open>
  Modelled from the spec: \<^verbatim>\<open>interpolate('linear')\<close> on one column (pandas, missing from
  the source), section 4.6: an empty cell is "the linear interpolation between its
  column's nearest preceding and following known values". In two points the pandas
  documentation of the call says otherwise than section 4.6; the model follows the
  documentation there, since this call is what the notebook runs. The documentation gives
  the method \<^verbatim>\<open>'linear'\<close> as "ignore the index and treat the values as equally spaced":
  the abscissa of a cell is its row number, not its time. With the default
  \<^verbatim>\<open>limit_direction='forward'\<close> and no \<^verbatim>\<open>limit_area\<close>, the cells before the first
  valid value stay \<^verbatim>\<open>NaN\<close> and the cells after the last valid value take the last valid
  value (the documentation shows a column 0, NaN, 2, NaN filled to 0, 1, 2, 2).

  \<open>prev_valid xs i\<close> is the nearest valid cell above row \<open>i\<close> and \<open>next_valid xs i\<close> the
  nearest valid cell below it, each with its row number.
\<close>

fun prev_valid :: "rat option list \<Rightarrow> nat \<Rightarrow> (nat \<times> rat) option" where
  "prev_valid xs 0 = None"
| "prev_valid xs (Suc j) = (case xs ! j of Some v \<Rightarrow> Some (j, v) | None \<Rightarrow> prev_valid xs j)"

fun first_valid :: "nat \<Rightarrow> rat option list \<Rightarrow> (nat \<times> rat) option" where
  "first_valid k [] = None"
| "first_valid k (Some v # xs) = Some (k, v)"
| "first_valid k (None # xs) = first_valid (Suc k) xs"

definition next_valid :: "rat option list \<Rightarrow> nat \<Rightarrow> (nat \<times> rat) option" where
  "next_valid xs i = first_valid (Suc i) (drop (Suc i) xs)"

definition interp_cell :: "rat option list \<Rightarrow> nat \<Rightarrow> rat option" where
  "interp_cell xs i =
     (case xs ! i of
        Some v \<Rightarrow> Some v
      | None \<Rightarrow>
          (case prev_valid xs i of
             None \<Rightarrow> None
           | Some (j, a) \<Rightarrow>
               (case next_valid xs i of
                  None \<Rightarrow> Some a
                | Some (k, b) \<Rightarrow> Some (a + (b - a) / of_nat (k - j) * of_nat (i - j)))))"

definition interpolate_col :: "rat option list \<Rightarrow> rat option list" where
  "interpolate_col xs = map (interp_cell xs) [0..<length xs]"

definition interpolate_linear :: "table \<Rightarrow> table" where
  "interpolate_linear t = apply_columns interpolate_col t"

text \<open>
  Modelled from the spec: \<^verbatim>\<open>rolling(window=w).mean()\<close> on one column (pandas, missing
  from the source), section 4.6: "a fixed-width trailing moving average", the "window
  size is a caller-supplied parameter". The window of row \<open>i\<close> is the \<open>w\<close> rows that end at
  row \<open>i\<close>, row \<open>i\<close> included. As in pandas, where \<^verbatim>\<open>min_periods\<close> defaults to the size
  of the window, the result is \<^verbatim>\<open>NaN\<close> unless the window holds \<open>w\<close> valid values.
\<close>

definition window :: "nat \<Rightarrow> 'a list \<Rightarrow> nat \<Rightarrow> 'a list" where
  "window w xs i = take w (drop (Suc i - w) xs)"

definition rolling_mean :: "nat \<Rightarrow> rat option list \<Rightarrow> rat option list" where
  "rolling_mean w xs =
     map (\<lambda>i. if w = 0 \<or> Suc i < w \<or> None \<in> set (window w xs i) then None
              else Some (sum_list (map the (window w xs i)) / of_nat w))
         [0..<length xs]"

text \<open>
  The three pipelines of the notebook, on the tables \<^verbatim>\<open>header.table('primary')\<close> and
  \<^verbatim>\<open>header.table('I_monitor')\<close>. \<open>sm_I\<close> is \<^verbatim>\<open>pd.DataFrame({'I': sm_I})\<close>: the times of
  the monitor table with the smoothed current as their only column.
\<close>

definition ffilled_data :: "table \<Rightarrow> table \<Rightarrow> table" where
  "ffilled_data primary monitor = ffill (sort_index (concat_tables [primary, monitor]))"

definition interp_data :: "table \<Rightarrow> table \<Rightarrow> table" where
  "interp_data primary monitor = interpolate_linear (sort_index (concat_tables [primary, monitor]))"

definition sm_I :: "nat \<Rightarrow> table \<Rightarrow> table" where
  "sm_I w monitor =
     map2 (\<lambda>r v. (fst r, Map.empty(''I'' := v))) monitor (rolling_mean w (column ''I'' monitor))"

definition interp_sm_data :: "nat \<Rightarrow> table \<Rightarrow> table \<Rightarrow> table" where
  "interp_sm_data w primary monitor =
     interpolate_linear (sort_index (concat_tables [primary, sm_I w monitor]))"

text \<open>
  The tables of the examples: streams \<open>A\<close> (times 0, 10, 20) and \<open>B\<close> (times 5, 15); a
  stream \<open>y\<close> with the points (0, 0) and (10, 100), read at the times of a stream \<open>x\<close>
  (-1, 5, 11) or of a stream \<open>u\<close> (-1, 1, 11).
\<close>

definition stream_A :: table where
  "stream_A = [(0, [''A'' \<mapsto> 1]), (10, [''A'' \<mapsto> 2]), (20, [''A'' \<mapsto> 3])]"

definition stream_B :: table where
  "stream_B = [(5, [''B'' \<mapsto> 7]), (15, [''B'' \<mapsto> 8])]"

definition stream_y :: table where
  "stream_y = [(0, [''y'' \<mapsto> 0]), (10, [''y'' \<mapsto> 100])]"

definition stream_x :: table where
  "stream_x = [(- 1, [''x'' \<mapsto> 3]), (5, [''x'' \<mapsto> 4]), (11, [''x'' \<mapsto> 5])]"

definition stream_u :: table where
  "stream_u = [(- 1, [''u'' \<mapsto> 3]), (1, [''u'' \<mapsto> 4]), (11, [''u'' \<mapsto> 5])]"

section \<open>The document log and the plan interpreter\<close>

text \<open>
  The notebooks run their plans with \<^verbatim>\<open>RE(...)\<close> and read the documents back with
  \<^verbatim>\<open>db[-1].documents()\<close>. The run engine and the document store are not in the
  repository, only these calls are. The definitions of this section follow the
  specification of the repository (sections 2, 3, 4.3, 4.5, 6 and 7).
\<close>

text \<open>
  Modelled from the spec: the error taxonomy of section 7 (missing from the source):
  \<open>ProtocolViolation\<close>, "a coding defect in the plan or device"; \<open>TimeoutError\<close>, "a Status
  Future never resolved within budget"; \<open>DeviceFailure\<close>, a "worker-reported failure"
  with its cause.
\<close>

datatype failure = ProtocolViolation | TimeoutError | DeviceFailure string

text \<open>
  Modelled from the spec: the exit status of a stop document (missing from the source),
  section 6: "exit_status in {success, abort, fail}".
\<close>

datatype exit_status = Success | Abort | Fail

text \<open>
  Modelled from the spec: the documents of the log (missing from the source), section 6:
  start, descriptor (with its stream name), event (with its stream name, its sequence
  number and the event) and stop (with its exit status). Uids and run times are left out.
\<close>

datatype document =
    StartDoc
  | DescriptorDoc string
  | EventDoc string nat event
  | StopDoc exit_status

text \<open>
  Modelled from the spec: the components that append to the log (missing from the
  source), section 4.5: "interpreter instruction, flyer collect, or monitor".
\<close>

datatype producer = Interpreter | FlyerCollect | Monitor

text \<open>
  Modelled from the spec: what a component can ask of the Document Emitter (missing from
  the source): open the run, declare a stream, append an event to a stream, close the run.
\<close>

datatype request =
    OpenRun
  | DeclareStream string
  | AppendEvent string event
  | CloseRun exit_status

text \<open>
  Modelled from the spec: the state of the Document Emitter (missing from the source):
  the append-only log, whether the run was opened and whether it is sealed (section 3,
  "created on open_run, sealed on close_run"), the streams that have their descriptor,
  and for each stream the sequence number of its latest event.
\<close>

record emitter =
  log :: "document list"
  opened :: bool
  sealed :: bool
  declared :: "string list"
  seq_count :: "string \<Rightarrow> nat"

text \<open>Modelled from the spec: the Document Emitter before \<open>open_run\<close> (missing from the source).\<close>

definition new_emitter :: emitter where
  "new_emitter = \<lparr>log = [], opened = False, sealed = False, declared = [], seq_count = (\<lambda>s. 0)\<rparr>"

text \<open>Modelled from the spec: a run is running between its start and its stop document.\<close>

definition running :: "emitter \<Rightarrow> bool" where
  "running e = (opened e \<and> \<not> sealed e)"

text \<open>
  Modelled from the spec: the enforcement of section 4.5, "a stream's Descriptor always
  precedes its first Event" (missing from the source): the descriptor of a stream is
  emitted once, when the stream is declared or, at the latest, before its first event.
\<close>

definition with_descriptor :: "string \<Rightarrow> emitter \<Rightarrow> emitter" where
  "with_descriptor s e =
     (if s \<in> set (declared e) then e
      else e\<lparr>log := log e @ [DescriptorDoc s], declared := s # declared e\<rparr>)"

text \<open>
  Modelled from the spec: the append operation of the Document Emitter (missing from the
  source). Section 4.3: open_run emits a start document; an event is appended to its
  stream "auto-incrementing sequence_number"; the stop document seals the run. Section 3:
  sequence numbers are "per-stream, strictly increasing from 1", and after the stop
  document "no further documents may be appended". A request out of sequence is a
  \<open>ProtocolViolation\<close> and appends nothing. Appends are atomic: concurrent producers are
  served one request at a time.
\<close>

fun emit :: "request \<Rightarrow> emitter \<Rightarrow> failure + emitter" where
  "emit OpenRun e =
     (if opened e then Inl ProtocolViolation
      else Inr (e\<lparr>log := log e @ [StartDoc], opened := True\<rparr>))"
| "emit (DeclareStream s) e =
     (if running e then Inr (with_descriptor s e) else Inl ProtocolViolation)"
| "emit (AppendEvent s ev) e =
     (if running e
      then (let e' = with_descriptor s e; n = Suc (seq_count e' s)
            in Inr (e'\<lparr>log := log e' @ [EventDoc s n ev], seq_count := (seq_count e')(s := n)\<rparr>))
      else Inl ProtocolViolation)"
| "emit (CloseRun st) e =
     (if running e then Inr (e\<lparr>log := log e @ [StopDoc st], sealed := True\<rparr>)
      else Inl ProtocolViolation)"

text \<open>
  Modelled from the spec: \<^verbatim>\<open>documents()\<close> (missing from the source), section 4.5:
  "produces the full ordered sequence".
\<close>

definition documents :: "emitter \<Rightarrow> document list" where
  "documents e = log e"

text \<open>
  Modelled from the spec: the requests of all producers in the order in which the emitter
  serves them (missing from the source). A refused request leaves the log as it is.
\<close>

fun feed :: "(producer \<times> request) list \<Rightarrow> emitter \<Rightarrow> emitter" where
  "feed [] e = e"
| "feed ((who, r) # rs) e = (case emit r e of Inl err \<Rightarrow> feed rs e | Inr e' \<Rightarrow> feed rs e')"

text \<open>
  Modelled from the spec: the Status Future (missing from the source), section 3:
  "tri-state {pending, succeeded, failed}", with "an optional failure cause".
\<close>

datatype future = Pending | Succeeded | Failed string

text \<open>
  Modelled from the spec: \<open>await_result\<close> (missing from the source), section 4.3 step 2:
  the interpreter suspends until the Status Future resolves, "honoring any configured
  per-instruction timeout (elapsed without resolution: TimeoutError)"; section 7: a
  future that resolved as failed is a \<open>DeviceFailure\<close> with its cause. The argument is the
  future as it is when the budget ends.
\<close>

fun await_result :: "future \<Rightarrow> failure option" where
  "await_result Succeeded = None"
| "await_result (Failed cause) = Some (DeviceFailure cause)"
| "await_result Pending = Some TimeoutError"

text \<open>
  Modelled from the spec: the synchronous instructions of a plan (missing from the
  source), section 3: \<open>read\<close> of a device and \<open>set\<close> of a device to a value.
\<close>

datatype instruction = Read string | Set string rat





fun refused :: "(nat \<Rightarrow> future) \<Rightarrow> string option \<Rightarrow> nat \<times> instruction \<Rightarrow> bool" where
  "refused answers key (n, Read d) = (key \<noteq> Some d)"
| "refused answers key (n, Set d v) = (await_result (answers n) \<noteq> None)"

definition completed :: "(nat \<Rightarrow> future) \<Rightarrow> string option \<Rightarrow> nat \<Rightarrow> instruction list
    \<Rightarrow> instruction list" where
  "completed answers key n p =
     map snd (takeWhile (\<lambda>ni. \<not> refused answers key ni) (enumerate n p))"


text \<open>The sequence numbers of the events of one stream, in the order of the log.\<close>

fun seq_nums :: "string \<Rightarrow> document list \<Rightarrow> nat list" where
  "seq_nums s [] = []"
| "seq_nums s (EventDoc s' n ev # ds) = (if s' = s then n # seq_nums s ds else seq_nums s ds)"
| "seq_nums s (d # ds) = seq_nums s ds"


fun is_stop :: "document \<Rightarrow> bool" where
  "is_stop (StopDoc st) = True"
| "is_stop d = False"

text \<open>Every event of the log has the descriptor of its stream somewhere before it.\<close>

definition descriptor_first :: "document list \<Rightarrow> bool" where
  "descriptor_first ds \<longleftrightarrow>
     (\<forall>i<length ds. \<forall>s n ev. ds ! i = EventDoc s n ev \<longrightarrow> (\<exists>j<i. ds ! j = DescriptorDoc s))"

text \<open>The invariant of the emitter that the proofs carry along a sequence of requests.\<close>

definition emitter_inv :: "emitter \<Rightarrow> bool" where
  "emitter_inv e \<longleftrightarrow>
     set (declared e) = {s. DescriptorDoc s \<in> set (log e)} \<and>
     descriptor_first (log e) \<and>
     (sealed e \<longrightarrow> opened e \<and> (\<exists>ds st. log e = ds @ [StopDoc st] \<and> (\<forall>d\<in>set ds. \<not> is_stop d))) \<and>
     (\<not> sealed e \<longrightarrow> (\<forall>d\<in>set (log e). \<not> is_stop d))"

text \<open>
  The run of the examples: a monitor, the interpreter and a flyer append to their
  streams; the monitor delivers one more sample after the run was closed.
\<close>

definition three_producers :: "(producer \<times> request) list" where
  "three_producers =
     [(Interpreter, OpenRun),
      (Monitor, AppendEvent ''I_monitor'' (mk_event 1 5)),
      (Interpreter, AppendEvent ''primary'' (mk_event 2 6)),
      (FlyerCollect, AppendEvent ''ifly'' (mk_event 3 7)),
      (Monitor, AppendEvent ''I_monitor'' (mk_event 4 8)),
      (Interpreter, CloseRun Success),
      (Monitor, AppendEvent ''I_monitor'' (mk_event 5 9))]"

section \<open>Properties of the Flyer\<close>

declare list_gen.simps [simp del]

lemma kickoff_eq:
  "kickoff now f =
     Inr (length (statuses f),
          f\<lparr>statuses := statuses f @ [DeviceStatus, DeviceStatus],
            kickoff_status := Some (length (statuses f)),
            complete_status := Some (Suc (length (statuses f))),
            t0 := now,
            threads := Suc (threads f)\<rparr>)"
  by (simp add: kickoff_def Let_def)

lemma flying_eq:
  "flying = \<lparr>statuses = [\<lparr>is_done = True, success = True\<rparr>, \<lparr>is_done = True, success = True\<rparr>],
             kickoff_status = Some 0, complete_status = Some 1, t0 = 1, threads = 0\<rparr>"
  by (simp add: flying_def run_thread_def kickoff_eq my_activity_def finish_def MyFlyer_def
      DeviceStatus_def finished_def)

lemma list_gen_Created:
  "list_gen clock n (f, Created) =
     (map (\<lambda>i. mk_event (clock (n + i)) (clock (n + i) - t0 f)) [0, 1, 2, 3, 4],
      f\<lparr>complete_status := None\<rparr>, Exhausted)"
  by (simp add: list_gen.simps numeral_eq_Suc)

lemma my_activity_t0: "t0 (my_activity f) = t0 f"
  by (simp add: my_activity_def finish_def split: option.splits)

lemma gen_next_idle:
  "complete_status f = None \<Longrightarrow> complete_status (fst (snd (gen_next now (f, g)))) = None"
  by (cases g) simp_all

subsection \<open>C2: complete() while idle\<close>

text \<open>
  C2, as stated, fails: \<^verbatim>\<open>BareMinimumFlyer.complete()\<close> keeps no state and succeeds on a
  Flyer that was never kicked off (the notebook prints its result).
\<close>

theorem C2_bare_complete_succeeds:
  "\<not> isl bare_complete \<and> bare_complete = Inr \<lparr>is_done = True, success = True\<rparr>"
  by (simp add: bare_complete_def finished_def DeviceStatus_def)

text \<open>
  C2, amended: for \<^verbatim>\<open>MyFlyer\<close>, \<^verbatim>\<open>complete()\<close> called while the Flyer is idle
  (\<^verbatim>\<open>complete_status is None\<close>) raises \<^verbatim>\<open>RuntimeError("No collection in progress")\<close>
  and leaves the Flyer as it was; in any other state it returns the stored status.
\<close>

theorem C2_complete_idle_raises:
  "(complete_status f = None \<longrightarrow>
      complete f = Inl (RuntimeError ''No collection in progress'')) \<and>
   (complete_status f = Some st \<longrightarrow> complete f = Inr (st, f))"
  by (simp add: complete_def)

theorem C2_complete_idle_raises_witness:
  "complete_status MyFlyer = None \<and>
   complete MyFlyer = Inl (RuntimeError ''No collection in progress'') \<and>
   complete_status flying = Some 1 \<and>
   statuses flying ! 1 = \<lparr>is_done = True, success = True\<rparr> \<and>
   complete flying = Inr (1, flying)"
  using C2_complete_idle_raises [of MyFlyer] C2_complete_idle_raises [of flying 1]
  by (simp add: MyFlyer_def flying_eq)

subsection \<open>C3: kickoff() while flying\<close>

text \<open>
  C3, as stated, fails: a second \<^verbatim>\<open>kickoff()\<close> on a Flyer that is flying is accepted;
  it returns a new status object, replaces both status attributes and \<^verbatim>\<open>t0\<close> and
  starts one more thread.
\<close>

theorem C3_kickoff_while_flying_accepted:
  "complete_status flying = Some 1 \<and>
   \<not> isl (kickoff 2 flying) \<and>
   kickoff 2 flying =
     Inr (2, \<lparr>statuses = [\<lparr>is_done = True, success = True\<rparr>, \<lparr>is_done = True, success = True\<rparr>,
                          \<lparr>is_done = False, success = False\<rparr>,
                          \<lparr>is_done = False, success = False\<rparr>],
              kickoff_status = Some 2, complete_status = Some 3, t0 = 2, threads = 1\<rparr>)"
  by (simp add: flying_eq kickoff_eq DeviceStatus_def)

text \<open>
  C3, amended: \<^verbatim>\<open>kickoff()\<close> is accepted in every state of the Flyer, flying or not. It
  never raises. It makes two new status objects, keeps the status objects made before as
  they are, stores the new ones in \<^verbatim>\<open>kickoff_status\<close> and \<^verbatim>\<open>complete_status\<close>, sets
  \<^verbatim>\<open>t0\<close> to the time of this call, starts one more thread and returns the very object
  that \<^verbatim>\<open>kickoff_status\<close> holds. As soon as a started thread has run, the returned status
  and the new complete status are done, with success.
\<close>

theorem C3_kickoff_never_rejected:
  "\<not> isl (kickoff now f) \<and>
   fst (projr (kickoff now f)) = length (statuses f) \<and>
   kickoff_status (snd (projr (kickoff now f))) = Some (fst (projr (kickoff now f))) \<and>
   complete_status (snd (projr (kickoff now f))) = Some (Suc (length (statuses f))) \<and>
   take (length (statuses f)) (statuses (snd (projr (kickoff now f)))) = statuses f \<and>
   length (statuses (snd (projr (kickoff now f)))) = length (statuses f) + 2 \<and>
   t0 (snd (projr (kickoff now f))) = now \<and>
   threads (snd (projr (kickoff now f))) = Suc (threads f) \<and>
   statuses (run_thread (snd (projr (kickoff now f)))) ! fst (projr (kickoff now f))
     = \<lparr>is_done = True, success = True\<rparr> \<and>
   statuses (run_thread (snd (projr (kickoff now f)))) ! Suc (length (statuses f))
     = \<lparr>is_done = True, success = True\<rparr>"
  by (simp add: kickoff_eq run_thread_def my_activity_def finish_def nth_append
      DeviceStatus_def finished_def)

theorem C3_kickoff_never_rejected_witness:
  "\<not> isl (kickoff 2 flying) \<and>
   fst (projr (kickoff 2 flying)) = 2 \<and>
   kickoff_status (snd (projr (kickoff 2 flying))) = Some 2 \<and>
   complete_status (snd (projr (kickoff 2 flying))) = Some 3 \<and>
   t0 (snd (projr (kickoff 2 flying))) = 2 \<and>
   threads (snd (projr (kickoff 2 flying))) = 1 \<and>
   statuses (run_thread (snd (projr (kickoff 2 flying)))) ! 2 = \<lparr>is_done = True, success = True\<rparr> \<and>
   statuses (run_thread (snd (projr (kickoff 2 flying)))) ! 3 = \<lparr>is_done = True, success = True\<rparr>"
proof -
  have l: "length (statuses flying) = 2" and t: "threads flying = 0"
    by (simp_all add: flying_eq)
  have r: "fst (projr (kickoff 2 flying)) = 2"
    by (simp add: kickoff_eq l)
  show ?thesis
    using C3_kickoff_never_rejected [of 2 flying] unfolding r by (simp add: l t)
qed

subsection \<open>C4: collect() twice in one cycle\<close>

text \<open>
  C4, as stated, fails: after one \<^verbatim>\<open>list(ifly.collect())\<close> on a flying Flyer, a second
  \<^verbatim>\<open>collect()\<close> with no \<^verbatim>\<open>kickoff()\<close> in between is accepted and yields 5 events again.
\<close>

theorem C4_second_collect_accepted:
  "fst (snd (list_gen of_nat 0 (flying, Created))) = flying\<lparr>complete_status := None\<rparr> \<and>
   \<not> isl (collect (flying\<lparr>complete_status := None\<rparr>)) \<and>
   length (fst (list_gen of_nat 5 (flying\<lparr>complete_status := None\<rparr>, Created))) = 5"
  by (simp add: list_gen_Created collect_def)

text \<open>
  C4, amended: \<^verbatim>\<open>collect()\<close> has no guard and never fails. Called again on the Flyer
  left by an earlier, exhausted \<^verbatim>\<open>collect()\<close>, it returns a new generator that yields
  5 events and leaves the Flyer idle.
\<close>

theorem C4_collect_again_yields:
  "list_gen clock n (f, Created) = (es, f', g) \<Longrightarrow>
     \<not> isl (collect h) \<and>
     collect f' = Inr (Created, f') \<and>
     length (fst (list_gen clock m (f', Created))) = 5 \<and>
     fst (snd (list_gen clock m (f', Created))) = f' \<and>
     complete_status f' = None"
  by (auto simp add: list_gen_Created collect_def)

theorem C4_collect_again_yields_witness:
  "list_gen of_nat 0 (flying, Created) =
     (map (\<lambda>i. mk_event (of_nat i) (of_nat i - 1)) [0, 1, 2, 3, 4],
      flying\<lparr>complete_status := None\<rparr>, Exhausted) \<and>
   collect (flying\<lparr>complete_status := None\<rparr>) = Inr (Created, flying\<lparr>complete_status := None\<rparr>) \<and>
   length (fst (list_gen of_nat 5 (flying\<lparr>complete_status := None\<rparr>, Created))) = 5"
proof -
  have h: "list_gen of_nat 0 (flying, Created) =
     (map (\<lambda>i. mk_event (of_nat i) (of_nat i - 1)) [0, 1, 2, 3, 4],
      flying\<lparr>complete_status := None\<rparr>, Exhausted)"
    by (simp add: list_gen_Created flying_eq)
  show ?thesis
    using h C4_collect_again_yields [OF h, where m = 5 and h = MyFlyer] by simp
qed

subsection \<open>C9: when the Flyer becomes idle again\<close>

text \<open>
  C9, as stated, fails: the Flyer is idle again after the first \<^verbatim>\<open>next\<close> of the
  generator, while the generator is not exhausted and still yields events.
\<close>

theorem C9_idle_before_exhaustion:
  "complete_status flying = Some 1 \<and>
   statuses flying ! 1 = \<lparr>is_done = True, success = True\<rparr> \<and>
   complete_status (fst (snd (gen_next 7 (flying, Created)))) = None \<and>
   snd (snd (gen_next 7 (flying, Created))) = Suspended 0 \<and>
   fst (gen_next 8 (snd (gen_next 7 (flying, Created)))) = Some (mk_event 8 7)"
  by (simp add: flying_eq)

text \<open>
  C9, amended: for \<^verbatim>\<open>MyFlyer\<close>, \<^verbatim>\<open>collect()\<close> is lazy (the call runs nothing and leaves
  the Flyer as it is), finite (the generator yields exactly 5 events and is then
  exhausted) and one-shot (an exhausted generator stays exhausted). The Flyer becomes idle
  at the first \<^verbatim>\<open>next\<close>, before the first event is yielded, and stays idle at every later
  \<^verbatim>\<open>next\<close>.
\<close>

theorem C9_collect_lazy_finite_one_shot:
  "collect f = Inr (Created, f) \<and>
   fst (gen_next now (f, Created)) = Some (mk_event now (now - t0 f)) \<and>
   snd (gen_next now (f, Created)) = (f\<lparr>complete_status := None\<rparr>, Suspended 0) \<and>
   (complete_status f = None \<longrightarrow> complete_status (fst (snd (gen_next now (f, g)))) = None) \<and>
   length (fst (list_gen clock n (f, Created))) = 5 \<and>
   snd (list_gen clock n (f, Created)) = (f\<lparr>complete_status := None\<rparr>, Exhausted) \<and>
   gen_next now (f, Exhausted) = (None, f, Exhausted)"
  by (simp add: collect_def list_gen_Created gen_next_idle)

theorem C9_collect_lazy_finite_one_shot_witness:
  "collect flying = Inr (Created, flying) \<and>
   snd (gen_next 7 (flying, Created)) = (flying\<lparr>complete_status := None\<rparr>, Suspended 0) \<and>
   complete_status (flying\<lparr>complete_status := None\<rparr>) = None \<and>
   complete_status (fst (snd (gen_next 8 (flying\<lparr>complete_status := None\<rparr>, Suspended 0)))) = None \<and>
   length (fst (list_gen of_nat 0 (flying, Created))) = 5 \<and>
   snd (list_gen of_nat 0 (flying, Created)) = (flying\<lparr>complete_status := None\<rparr>, Exhausted) \<and>
   gen_next 9 (flying\<lparr>complete_status := None\<rparr>, Exhausted) =
     (None, flying\<lparr>complete_status := None\<rparr>, Exhausted)"
  using C9_collect_lazy_finite_one_shot [of flying 7 "Suspended 0" of_nat 0]
    C9_collect_lazy_finite_one_shot [of "flying\<lparr>complete_status := None\<rparr>" 8 "Suspended 0" of_nat 0]
    C9_collect_lazy_finite_one_shot [of "flying\<lparr>complete_status := None\<rparr>" 9 "Suspended 0" of_nat 0]
  by simp

subsection \<open>C10: the events of the 1-D array Flyer\<close>

text \<open>
  C10, as stated, fails in its last part: \<^verbatim>\<open>time.time()\<close> is the wall clock and may
  return less than an earlier call did. Kicked off at reading 10 and collected at the
  readings 5, 4, ..., the data values are negative and decreasing.
\<close>

theorem C10_backward_clock:
  "t0 (my_activity (snd (projr (kickoff 10 MyFlyer)))) = 10 \<and>
   data (fst (list_gen (\<lambda>n. 5 - of_nat n) 0
           (my_activity (snd (projr (kickoff 10 MyFlyer))), Created)) ! 0) ''x'' = Some (- 5) \<and>
   data (fst (list_gen (\<lambda>n. 5 - of_nat n) 0
           (my_activity (snd (projr (kickoff 10 MyFlyer))), Created)) ! 1) ''x'' = Some (- 6)"
  by (simp add: list_gen_Created kickoff_eq my_activity_t0 MyFlyer_def mk_event_def)

text \<open>
  C10, amended: every run of \<^verbatim>\<open>collect()\<close> to exhaustion yields exactly 5 events. In each
  event the timestamp of \<^verbatim>\<open>x\<close> is the event's time, and the data value of \<^verbatim>\<open>x\<close> is the
  event's time minus \<^verbatim>\<open>t0\<close>, which is the clock reading of the latest \<^verbatim>\<open>kickoff()\<close>
  (and 0 on a Flyer that was never kicked off). If
  the clock readings do not decrease from \<^verbatim>\<open>t0\<close> through the five reads, the data values
  are non-negative and non-decreasing.
\<close>

theorem C10_collect_events:
  "list_gen clock n (f, Created) = (es, f', g) \<Longrightarrow>
     length es = 5 \<and>
     (\<forall>i<5. time (es ! i) = clock (n + i) \<and>
             timestamps (es ! i) ''x'' = Some (time (es ! i)) \<and>
             data (es ! i) ''x'' = Some (time (es ! i) - t0 f)) \<and>
     t0 MyFlyer = 0 \<and>
     t0 (snd (projr (kickoff tk f0))) = tk \<and>
     t0 (my_activity (snd (projr (kickoff tk f0)))) = tk \<and>
     (t0 f \<le> clock n \<and> (\<forall>i<4. clock (n + i) \<le> clock (n + Suc i)) \<longrightarrow>
        (\<forall>i<5. 0 \<le> the (data (es ! i) ''x'')) \<and>
        (\<forall>i<4. the (data (es ! i) ''x'') \<le> the (data (es ! Suc i) ''x'')))"
proof -
  assume a: "list_gen clock n (f, Created) = (es, f', g)"
  have es: "es = map (\<lambda>i. mk_event (clock (n + i)) (clock (n + i) - t0 f)) [0, 1, 2, 3, 4]"
    using a by (simp add: list_gen_Created)
  have len: "length es = 5" by (simp add: es)
  have nth: "es ! i = mk_event (clock (n + i)) (clock (n + i) - t0 f)" if "i < 5" for i
  proof -
    from that have "i = 0 \<or> i = 1 \<or> i = 2 \<or> i = 3 \<or> i = 4" by arith
    then show ?thesis by (auto simp add: es)
  qed
  have fields: "\<forall>i<5. time (es ! i) = clock (n + i) \<and>
             timestamps (es ! i) ''x'' = Some (time (es ! i)) \<and>
             data (es ! i) ''x'' = Some (time (es ! i) - t0 f)"
    by (simp add: nth mk_event_def)
  have k: "t0 MyFlyer = 0 \<and> t0 (snd (projr (kickoff tk f0))) = tk \<and>
           t0 (my_activity (snd (projr (kickoff tk f0)))) = tk"
    by (simp add: kickoff_eq my_activity_t0 MyFlyer_def)
  have mono: "(\<forall>i<5. 0 \<le> the (data (es ! i) ''x'')) \<and>
        (\<forall>i<4. the (data (es ! i) ''x'') \<le> the (data (es ! Suc i) ''x''))"
    if b: "t0 f \<le> clock n" and c: "\<forall>i<4. clock (n + i) \<le> clock (n + Suc i)"
  proof -
    have up: "clock n \<le> clock (n + i)" if "i < 5" for i
      using that
    proof (induction i)
      case 0
      then show ?case by simp
    next
      case (Suc j)
      then have "clock (n + j) \<le> clock (n + Suc j)" using c by simp
      with Suc show ?case by simp
    qed
    have 1: "\<forall>i<5. 0 \<le> the (data (es ! i) ''x'')"
      using up b by (auto simp add: nth mk_event_def intro: order_trans)
    have 2: "\<forall>i<4. the (data (es ! i) ''x'') \<le> the (data (es ! Suc i) ''x'')"
      using c by (simp add: nth mk_event_def)
    from 1 2 show ?thesis by simp
  qed
  from len fields k mono show ?thesis by blast
qed

theorem C10_collect_events_witness:
  "list_gen of_nat 3 (my_activity (snd (projr (kickoff 2 MyFlyer))), Created) =
     (map (\<lambda>i. mk_event (of_nat i) (of_nat i - 2)) [3, 4, 5, 6, 7],
      (my_activity (snd (projr (kickoff 2 MyFlyer))))\<lparr>complete_status := None\<rparr>, Exhausted) \<and>
   length (map (\<lambda>i. mk_event (of_nat i) (of_nat i - 2)) [3, 4, 5, 6, 7 :: nat]) = 5 \<and>
   time (map (\<lambda>i. mk_event (of_nat i) (of_nat i - 2)) [3, 4, 5, 6, 7] ! 4) = 7 \<and>
   timestamps (map (\<lambda>i. mk_event (of_nat i) (of_nat i - 2)) [3, 4, 5, 6, 7] ! 4) ''x'' = Some 7 \<and>
   data (map (\<lambda>i. mk_event (of_nat i) (of_nat i - 2)) [3, 4, 5, 6, 7] ! 4) ''x'' = Some 5 \<and>
   t0 (my_activity (snd (projr (kickoff 2 MyFlyer)))) = 2 \<and>
   0 \<le> the (data (map (\<lambda>i. mk_event (of_nat i) (of_nat i - 2)) [3, 4, 5, 6, 7] ! 0) ''x'') \<and>
   the (data (map (\<lambda>i. mk_event (of_nat i) (of_nat i - 2)) [3, 4, 5, 6, 7] ! 3) ''x'')
     \<le> the (data (map (\<lambda>i. mk_event (of_nat i) (of_nat i - 2)) [3, 4, 5, 6, 7] ! 4) ''x'')"
proof -
  let ?f = "my_activity (snd (projr (kickoff 2 MyFlyer)))"
  have t: "t0 ?f = 2" by (simp add: my_activity_t0 kickoff_eq)
  have h: "list_gen of_nat 3 (?f, Created) =
     (map (\<lambda>i. mk_event (of_nat i) (of_nat i - 2)) [3, 4, 5, 6, 7],
      ?f\<lparr>complete_status := None\<rparr>, Exhausted)"
    by (simp add: list_gen_Created t)
  have m: "t0 ?f \<le> of_nat 3 \<and> (\<forall>i<4. (of_nat (3 + i) :: rat) \<le> of_nat (3 + Suc i))"
    by (simp add: t)
  show ?thesis
    using h t m C10_collect_events [OF h, of 2 MyFlyer] by (simp add: mk_event_def)
qed

section \<open>Properties of the stream alignment\<close>

lemma length_ffill_col [simp]: "length (ffill_col l xs) = length xs"
  by (induction l xs rule: ffill_col.induct) auto

lemma length_interpolate_col [simp]: "length (interpolate_col xs) = length xs"
  by (simp add: interpolate_col_def)

lemma length_rolling_mean [simp]: "length (rolling_mean w xs) = length xs"
  by (simp add: rolling_mean_def)

lemma length_column [simp]: "length (column c t) = length t"
  by (simp add: column_def)

lemma length_apply_columns [simp]: "length (apply_columns f t) = length t"
  by (simp add: apply_columns_def)

lemma apply_columns_nth:
  "i < length t \<Longrightarrow> apply_columns f t ! i = (fst (t ! i), \<lambda>c. f (column c t) ! i)"
  by (simp add: apply_columns_def nth_enumerate_eq)

lemma column_apply_columns:
  "length (f (column c t)) = length t \<Longrightarrow> column c (apply_columns f t) = f (column c t)"
  by (rule nth_equalityI) (simp_all add: column_def apply_columns_nth)

lemma index_apply_columns: "map fst (apply_columns f t) = map fst t"
  by (rule nth_equalityI) (simp_all add: apply_columns_nth)

lemma ffill_col_leading:
  "i < length xs \<Longrightarrow> \<forall>j\<le>i. xs ! j = None \<Longrightarrow> ffill_col l xs ! i = l"
proof (induction l xs arbitrary: i rule: ffill_col.induct)
  case (1 l)
  then show ?case by simp
next
  case (2 l xs)
  show ?case
  proof (cases i)
    case 0
    then show ?thesis by simp
  next
    case (Suc k)
    have "\<forall>j\<le>k. xs ! j = None"
      using 2(3) Suc by (metis Suc_le_mono nth_Cons_Suc)
    then show ?thesis using 2 Suc by simp
  qed
next
  case (3 l v xs)
  then show ?case by (metis le0 nth_Cons_0 option.distinct(1))
qed

lemma ffill_col_recent:
  "i < length xs \<Longrightarrow> j \<le> i \<Longrightarrow> xs ! j = Some v \<Longrightarrow> \<forall>m. j < m \<and> m \<le> i \<longrightarrow> xs ! m = None
     \<Longrightarrow> ffill_col l xs ! i = Some v"
proof (induction l xs arbitrary: i j rule: ffill_col.induct)
  case (1 l)
  then show ?case by simp
next
  case (2 l xs)
  from 2(4) have "j \<noteq> 0" by (cases j) auto
  then obtain j' where j: "j = Suc j'" by (cases j) auto
  with 2(3) obtain i' where i: "i = Suc i'" by (cases i) auto
  have "\<forall>m. j' < m \<and> m \<le> i' \<longrightarrow> xs ! m = None"
    using 2(5) i j by (metis Suc_le_mono Suc_less_eq nth_Cons_Suc)
  then show ?case using 2 i j by simp
next
  case (3 l w xs)
  show ?case
  proof (cases i)
    case 0
    then show ?thesis using 3 by simp
  next
    case (Suc i')
    show ?thesis
    proof (cases j)
      case 0
      have a: "\<forall>m\<le>i'. xs ! m = None"
        using 3(5) 0 Suc by (metis Suc_le_mono nth_Cons_Suc zero_less_Suc)
      have "w = v" using 3(4) 0 by simp
      then show ?thesis using 3(2) Suc a by (simp add: ffill_col_leading)
    next
      case (Suc j')
      have "\<forall>m. j' < m \<and> m \<le> i' \<longrightarrow> xs ! m = None"
        using 3(5) Suc \<open>i = Suc i'\<close> by (metis Suc_le_mono Suc_less_eq nth_Cons_Suc)
      then show ?thesis using 3 Suc \<open>i = Suc i'\<close> by simp
    qed
  qed
qed

lemma prev_valid_none: "\<forall>m<i. xs ! m = None \<Longrightarrow> prev_valid xs i = None"
  by (induction i) simp_all

lemma prev_valid_some:
  "j < i \<Longrightarrow> xs ! j = Some a \<Longrightarrow> \<forall>m. j < m \<and> m < i \<longrightarrow> xs ! m = None
     \<Longrightarrow> prev_valid xs i = Some (j, a)"
proof (induction i)
  case 0
  then show ?case by simp
next
  case (Suc i)
  show ?case
  proof (cases "j = i")
    case True
    then show ?thesis using Suc by simp
  next
    case False
    then have "j < i" using Suc.prems by simp
    moreover have "xs ! i = None" using Suc.prems \<open>j < i\<close> by simp
    ultimately show ?thesis using Suc by simp
  qed
qed

lemma first_valid_none: "\<forall>m<length ys. ys ! m = None \<Longrightarrow> first_valid k ys = None"
proof (induction k ys rule: first_valid.induct)
  case (1 k)
  then show ?case by simp
next
  case (2 k v xs)
  then show ?case by (metis length_greater_0_conv list.distinct(1) nth_Cons_0 option.distinct(1))
next
  case (3 k xs)
  have "\<forall>m<length xs. xs ! m = None"
    using 3(2) by (metis Suc_less_eq length_Cons nth_Cons_Suc)
  then show ?case using 3 by simp
qed

lemma first_valid_some:
  "d < length ys \<Longrightarrow> ys ! d = Some b \<Longrightarrow> \<forall>m<d. ys ! m = None
     \<Longrightarrow> first_valid k ys = Some (k + d, b)"
proof (induction k ys arbitrary: d rule: first_valid.induct)
  case (1 k)
  then show ?case by simp
next
  case (2 k v xs)
  have "d = 0"
  proof (rule ccontr)
    assume "d \<noteq> 0"
    then have "(Some v # xs) ! 0 = None" using 2(3) by blast
    then show False by simp
  qed
  then show ?case using 2 by simp
next
  case (3 k xs)
  from 3(3) obtain d' where d: "d = Suc d'" by (cases d) auto
  have "\<forall>m<d'. xs ! m = None"
    using 3(4) d by (metis Suc_less_eq nth_Cons_Suc)
  then show ?case using 3 d by simp
qed

lemma next_valid_none:
  "\<forall>m. i < m \<and> m < length xs \<longrightarrow> xs ! m = None \<Longrightarrow> next_valid xs i = None"
  unfolding next_valid_def by (rule first_valid_none) simp

lemma next_valid_some:
  assumes "i < k" and "k < length xs" and "xs ! k = Some b"
    and "\<forall>m. i < m \<and> m < k \<longrightarrow> xs ! m = None"
  shows "next_valid xs i = Some (k, b)"
proof -
  let ?d = "k - Suc i"
  have 1: "?d < length (drop (Suc i) xs)" using assms by simp
  have 2: "drop (Suc i) xs ! ?d = Some b" using assms by simp
  have 3: "\<forall>m<?d. drop (Suc i) xs ! m = None" using assms by simp
  have "first_valid (Suc i) (drop (Suc i) xs) = Some (Suc i + ?d, b)"
    using 1 2 3 by (rule first_valid_some)
  then show ?thesis using assms by (simp add: next_valid_def)
qed

lemma interpolate_col_nth: "i < length xs \<Longrightarrow> interpolate_col xs ! i = interp_cell xs i"
  by (simp add: interpolate_col_def)

lemma interp_cell_known: "xs ! i = Some v \<Longrightarrow> interp_cell xs i = Some v"
  by (simp add: interp_cell_def)

lemma interp_cell_leading: "\<forall>m\<le>i. xs ! m = None \<Longrightarrow> interp_cell xs i = None"
  by (simp add: interp_cell_def prev_valid_none)

lemma interp_cell_inside:
  assumes "xs ! i = None" and "j < i" and "i < k" and "k < length xs"
    and "xs ! j = Some a" and "xs ! k = Some b"
    and "\<forall>m. j < m \<and> m < k \<longrightarrow> xs ! m = None"
  shows "interp_cell xs i = Some (a + (b - a) / of_nat (k - j) * of_nat (i - j))"
proof -
  have p: "prev_valid xs i = Some (j, a)"
    using assms by (intro prev_valid_some) auto
  have n: "next_valid xs i = Some (k, b)"
    using assms by (intro next_valid_some) auto
  show ?thesis using assms(1) p n by (simp add: interp_cell_def)
qed

lemma interp_cell_trailing:
  assumes "xs ! i = None" and "j < i" and "i < length xs" and "xs ! j = Some a"
    and "\<forall>m. j < m \<and> m < length xs \<longrightarrow> xs ! m = None"
  shows "interp_cell xs i = Some a"
proof -
  have p: "prev_valid xs i = Some (j, a)"
    using assms by (intro prev_valid_some) auto
  have n: "next_valid xs i = None"
    using assms by (intro next_valid_none) auto
  show ?thesis using assms(1) p n by (simp add: interp_cell_def)
qed

lemma window_sum:
  fixes ys :: "rat list"
  assumes "w \<le> Suc i" and "i < length ys"
  shows "sum_list (window w ys i) = (\<Sum>k = Suc i - w..i. ys ! k)"
proof -
  let ?d = "Suc i - w"
  have len: "length (window w ys i) = w" using assms by (simp add: window_def)
  have "sum_list (window w ys i) = (\<Sum>k = 0..<w. window w ys i ! k)"
    using len by (simp add: sum_list_sum_nth)
  also have "\<dots> = (\<Sum>k = 0..<w. ys ! (k + ?d))"
    using assms by (intro sum.cong) (simp_all add: window_def add.commute)
  also have "\<dots> = (\<Sum>k = 0 + ?d..<w + ?d. ys ! k)"
    by (rule sum.shift_bounds_nat_ivl [symmetric])
  also have "w + ?d = Suc i" using assms by simp
  finally show ?thesis by (simp add: atLeastLessThanSuc_atLeastAtMost)
qed

lemma window_map: "window w (map f ys) i = map f (window w ys i)"
  by (simp add: window_def take_map drop_map)

lemma rolling_mean_nth:
  "i < length xs \<Longrightarrow> rolling_mean w xs ! i =
     (if w = 0 \<or> Suc i < w \<or> None \<in> set (window w xs i) then None
      else Some (sum_list (map the (window w xs i)) / of_nat w))"
  by (simp add: rolling_mean_def)

lemma rolling_mean_Some:
  assumes "0 < w" and "i < length ys"
  shows "rolling_mean w (map Some ys) ! i =
     (if Suc i < w then None else Some ((\<Sum>k = Suc i - w..i. ys ! k) / of_nat w))"
proof -
  have "None \<notin> set (window w (map Some ys) i)" by (auto simp add: window_map)
  moreover have "map the (window w (map Some ys) i) = window w ys i"
    by (simp add: window_map comp_def)
  ultimately show ?thesis
    using assms by (simp add: rolling_mean_nth window_sum)
qed

lemma sorted_A_B: "sort_index (concat_tables [stream_A, stream_B]) =
  [(0, [''A'' \<mapsto> 1]), (5, [''B'' \<mapsto> 7]), (10, [''A'' \<mapsto> 2]), (15, [''B'' \<mapsto> 8]), (20, [''A'' \<mapsto> 3])]"
  by (simp add: sort_index_def concat_tables_def stream_A_def stream_B_def)

lemma sorted_x_y: "sort_index (concat_tables [stream_x, stream_y]) =
  [(- 1, [''x'' \<mapsto> 3]), (0, [''y'' \<mapsto> 0]), (5, [''x'' \<mapsto> 4]), (10, [''y'' \<mapsto> 100]), (11, [''x'' \<mapsto> 5])]"
  by (simp add: sort_index_def concat_tables_def stream_x_def stream_y_def)

lemma sorted_u_y: "sort_index (concat_tables [stream_u, stream_y]) =
  [(- 1, [''u'' \<mapsto> 3]), (0, [''y'' \<mapsto> 0]), (1, [''u'' \<mapsto> 4]), (10, [''y'' \<mapsto> 100]), (11, [''u'' \<mapsto> 5])]"
  by (simp add: sort_index_def concat_tables_def stream_u_def stream_y_def)

lemma interpolate_col_example:
  "interpolate_col [None, Some 0, None, Some 100, None] = [None, Some 0, Some 50, Some 100, Some 100]"
  by code_simp

lemma column_ffill: "column c (ffill t) = ffill_col None (column c t)"
  by (simp add: ffill_def column_apply_columns)

lemma column_interpolate_linear: "column c (interpolate_linear t) = interpolate_col (column c t)"
  by (simp add: interpolate_linear_def column_apply_columns)

subsection \<open>C5: forward fill\<close>

text \<open>
  C5: in the forward-filled table the rows are the rows of both tables in ascending order
  of time, with their times kept. A cell of row \<open>i\<close> is empty when its column is empty in
  every row up to \<open>i\<close>; otherwise it holds the value of the latest row up to \<open>i\<close> in which
  the column is not empty.
\<close>

theorem C5_forward_fill:
  "s = sort_index (concat_tables [primary, monitor]) \<Longrightarrow> i < length s \<Longrightarrow>
     sorted (map fst s) \<and> set s = set primary \<union> set monitor \<and>
     length s = length primary + length monitor \<and>
     map fst (ffilled_data primary monitor) = map fst s \<and>
     ((\<forall>m\<le>i. column c s ! m = None) \<longrightarrow>
        column c (ffilled_data primary monitor) ! i = None) \<and>
     (j \<le> i \<and> column c s ! j = Some v \<and> (\<forall>m. j < m \<and> m \<le> i \<longrightarrow> column c s ! m = None) \<longrightarrow>
        column c (ffilled_data primary monitor) ! i = Some v)"
proof -
  assume s: "s = sort_index (concat_tables [primary, monitor])" and i: "i < length s"
  have f: "ffilled_data primary monitor = ffill s"
    by (simp add: ffilled_data_def s)
  have 1: "sorted (map fst s)"
    by (simp add: s sort_index_def)
  have 2: "set s = set primary \<union> set monitor"
    by (simp add: s sort_index_def concat_tables_def)
  have 3: "length s = length primary + length monitor"
    by (simp add: s sort_index_def concat_tables_def)
  have 4: "map fst (ffilled_data primary monitor) = map fst s"
    by (simp add: f ffill_def index_apply_columns)
  have 5: "column c (ffilled_data primary monitor) ! i = None" if "\<forall>m\<le>i. column c s ! m = None"
    using that i by (simp add: f column_ffill ffill_col_leading)
  have 6: "column c (ffilled_data primary monitor) ! i = Some v"
    if "j \<le> i" and "column c s ! j = Some v" and "\<forall>m. j < m \<and> m \<le> i \<longrightarrow> column c s ! m = None"
    unfolding f column_ffill using i that by (intro ffill_col_recent) simp_all
  from 1 2 3 4 5 6 show ?thesis by blast
qed

theorem C5_forward_fill_witness:
  "sort_index (concat_tables [stream_A, stream_B]) =
     [(0, [''A'' \<mapsto> 1]), (5, [''B'' \<mapsto> 7]), (10, [''A'' \<mapsto> 2]), (15, [''B'' \<mapsto> 8]),
      (20, [''A'' \<mapsto> 3])] \<and>
   map fst (ffilled_data stream_A stream_B) = [0, 5, 10, 15, 20] \<and>
   column ''A'' (ffilled_data stream_A stream_B) ! 1 = Some 1 \<and>
   column ''B'' (ffilled_data stream_A stream_B) ! 1 = Some 7 \<and>
   column ''B'' (ffilled_data stream_A stream_B) ! 0 = None"
proof -
  let ?s = "sort_index (concat_tables [stream_A, stream_B])"
  have s: "?s = ?s" by simp
  have cA: "column ''A'' ?s = [Some 1, None, Some 2, None, Some 3]"
    by (simp add: sorted_A_B column_def)
  have cB: "column ''B'' ?s = [None, Some 7, None, Some 8, None]"
    by (simp add: sorted_A_B column_def)
  have l1: "1 < length ?s" and l0: "0 < length ?s" by (simp_all add: sorted_A_B)
  have a: "(0::nat) \<le> 1 \<and> column ''A'' ?s ! 0 = Some 1 \<and>
           (\<forall>m. 0 < m \<and> m \<le> 1 \<longrightarrow> column ''A'' ?s ! m = None)"
    by (auto simp add: cA le_Suc_eq)
  have b: "(1::nat) \<le> 1 \<and> column ''B'' ?s ! 1 = Some 7 \<and>
           (\<forall>m. 1 < m \<and> m \<le> 1 \<longrightarrow> column ''B'' ?s ! m = None)"
    by (auto simp add: cB)
  have c: "\<forall>m\<le>0. column ''B'' ?s ! m = None"
    by (simp add: cB)
  show ?thesis
    using C5_forward_fill [OF s l1, of "''A''" 0 1] C5_forward_fill [OF s l1, of "''B''" 1 7]
      C5_forward_fill [OF s l0, of "''B''"] a b c
    by (simp add: sorted_A_B)
qed

subsection \<open>The weights of the interpolation\<close>

lemma between_weights:
  fixes a b :: rat
  assumes "j < i" and "i < k"
  shows "min a b \<le> a + (b - a) / of_nat (k - j) * of_nat (i - j) \<and>
         a + (b - a) / of_nat (k - j) * of_nat (i - j) \<le> max a b"
proof -
  define r :: rat where "r = of_nat (i - j) / of_nat (k - j)"
  have pos: "(0::rat) < of_nat (k - j)" using assms by simp
  have le: "(of_nat (i - j) :: rat) \<le> of_nat (k - j)" using assms by simp
  have r0: "0 \<le> r" unfolding r_def using pos by simp
  have r1: "r \<le> 1" unfolding r_def using pos le by simp
  have e: "a + (b - a) / of_nat (k - j) * of_nat (i - j) = a + (b - a) * r"
    by (simp add: r_def)
  show ?thesis
  proof (cases "a \<le> b")
    case True
    have 1: "0 \<le> (b - a) * r" using True r0 by simp
    have "(b - a) * r \<le> (b - a) * 1"
      using True r1 by (intro mult_left_mono) simp_all
    then have 2: "(b - a) * r \<le> b - a" by simp
    have m: "min a b = a" "max a b = b" using True by simp_all
    show ?thesis unfolding e m using 1 2 by linarith
  next
    case False
    have 1: "(b - a) * r \<le> 0" using False r0 by (simp add: mult_nonpos_nonneg)
    have "(b - a) * 1 \<le> (b - a) * r"
      using False r1 by (intro mult_left_mono_neg) simp_all
    then have 2: "b - a \<le> (b - a) * r" by simp
    have m: "min a b = b" "max a b = a" using False by simp_all
    show ?thesis unfolding e m using 1 2 by linarith
  qed
qed

lemma equal_spacing_weights:
  fixes a b h tj :: rat
  assumes "j < i" and "i < k" and "0 < h"
    and ti: "ti = tj + of_nat (i - j) * h" and tk: "tk = tj + of_nat (k - j) * h"
  shows "a + (b - a) / of_nat (k - j) * of_nat (i - j) = a + (b - a) * (ti - tj) / (tk - tj)"
proof -
  have pos: "(0::rat) < of_nat (k - j)" using assms by simp
  have "(b - a) * (ti - tj) / (tk - tj) = (b - a) * (of_nat (i - j) * h) / (of_nat (k - j) * h)"
    by (simp add: ti tk)
  also have "\<dots> = (b - a) * of_nat (i - j) / of_nat (k - j)"
    using assms(3) by simp
  finally show ?thesis by simp
qed

text \<open>
  Where the rows are not equally spaced in time, the filled value follows the row
  numbers and not the times: read at the times -1, 1 and 11, the stream with the points
  (0, 0) and (10, 100) gets 50 at time 1, where the linear interpolation at that time is
  10. The notebooks ask for the other: "we have to interpolate one at the time points of
  the other".
\<close>

lemma interp_data_unequal_spacing:
  "map fst (interp_data stream_u stream_y) = [- 1, 0, 1, 10, 11] \<and>
   column ''y'' (interp_data stream_u stream_y) = [None, Some 0, Some 50, Some 100, Some 100]"
proof -
  have u: "column ''y'' (sort_index (concat_tables [stream_u, stream_y])) =
             [None, Some 0, None, Some 100, None]"
    by (simp add: sorted_u_y column_def)
  have 1: "map fst (interp_data stream_u stream_y) = [- 1, 0, 1, 10, 11]"
    by (simp add: interp_data_def interpolate_linear_def index_apply_columns sorted_u_y)
  have 2: "column ''y'' (interp_data stream_u stream_y) = [None, Some 0, Some 50, Some 100, Some 100]"
    by (simp add: interp_data_def column_interpolate_linear u interpolate_col_example)
  from 1 2 show ?thesis by simp
qed

subsection \<open>C1: linear interpolation\<close>

text \<open>
  C1, as stated, fails: for the stream with the points (0, 0) and (10, 100), read at the
  times -1, 5 and 11, the cell at time 11, after the last known value, is not empty but
  holds 100.
\<close>

theorem C1_trailing_cells_filled:
  "map fst (interp_data stream_x stream_y) = [- 1, 0, 5, 10, 11] \<and>
   column ''y'' (interp_data stream_x stream_y) = [None, Some 0, Some 50, Some 100, Some 100]"
proof -
  have x: "column ''y'' (sort_index (concat_tables [stream_x, stream_y])) =
             [None, Some 0, None, Some 100, None]"
    by (simp add: sorted_x_y column_def)
  have 1: "map fst (interp_data stream_x stream_y) = [- 1, 0, 5, 10, 11]"
    by (simp add: interp_data_def interpolate_linear_def index_apply_columns sorted_x_y)
  have 2: "column ''y'' (interp_data stream_x stream_y) = [None, Some 0, Some 50, Some 100, Some 100]"
    by (simp add: interp_data_def column_interpolate_linear x interpolate_col_example)
  from 1 2 show ?thesis by simp
qed

text \<open>
  C1, amended: the interpolated table has the rows of both tables in ascending order of
  time, with their times and their known cells kept. An empty cell between two known
  values of its column is filled with a value that lies between the nearest known value
  before it and the nearest known value after it; where the rows from the one to the
  other are equally spaced in time, it is the linear interpolation between the two at the
  time of the cell. An empty cell before the first known value of its column stays empty.
  An empty cell after the last known value of its column takes that last value.
\<close>

theorem C1_interpolate_linear:
  "s = sort_index (concat_tables [primary, monitor]) \<Longrightarrow> i < length s \<Longrightarrow>
     sorted (map fst s) \<and> set s = set primary \<union> set monitor \<and>
     map fst (interp_data primary monitor) = map fst s \<and>
     (column c s ! i = Some v \<longrightarrow> column c (interp_data primary monitor) ! i = Some v) \<and>
     (column c s ! i = None \<and> j < i \<and> i < k \<and> k < length s \<and>
      column c s ! j = Some a \<and> column c s ! k = Some b \<and>
      (\<forall>m. j < m \<and> m < k \<longrightarrow> column c s ! m = None) \<longrightarrow>
        (\<exists>w. column c (interp_data primary monitor) ! i = Some w \<and> min a b \<le> w \<and> w \<le> max a b) \<and>
        (0 < h \<and> (\<forall>m. j \<le> m \<and> m \<le> k \<longrightarrow> fst (s ! m) = fst (s ! j) + of_nat (m - j) * h) \<longrightarrow>
           column c (interp_data primary monitor) ! i =
             Some (a + (b - a) * (fst (s ! i) - fst (s ! j)) / (fst (s ! k) - fst (s ! j))))) \<and>
     ((\<forall>m\<le>i. column c s ! m = None) \<longrightarrow> column c (interp_data primary monitor) ! i = None) \<and>
     (column c s ! i = None \<and> j < i \<and> column c s ! j = Some a \<and>
      (\<forall>m. j < m \<and> m < length s \<longrightarrow> column c s ! m = None) \<longrightarrow>
        column c (interp_data primary monitor) ! i = Some a)"
proof -
  assume s: "s = sort_index (concat_tables [primary, monitor])" and i: "i < length s"
  have f: "interp_data primary monitor = interpolate_linear s"
    by (simp add: interp_data_def s)
  have n: "column c (interp_data primary monitor) ! i = interp_cell (column c s) i"
    using i by (simp add: f column_interpolate_linear interpolate_col_nth)
  have c0: "sorted (map fst s)"
    by (simp add: s sort_index_def)
  have c1: "set s = set primary \<union> set monitor"
    by (simp add: s sort_index_def concat_tables_def)
  have c2: "map fst (interp_data primary monitor) = map fst s"
    by (simp add: f interpolate_linear_def index_apply_columns)
  have c3: "column c s ! i = Some v \<longrightarrow> column c (interp_data primary monitor) ! i = Some v"
    by (simp add: n interp_cell_known)
  have c4: "column c s ! i = None \<and> j < i \<and> i < k \<and> k < length s \<and>
      column c s ! j = Some a \<and> column c s ! k = Some b \<and>
      (\<forall>m. j < m \<and> m < k \<longrightarrow> column c s ! m = None) \<longrightarrow>
        (\<exists>w. column c (interp_data primary monitor) ! i = Some w \<and> min a b \<le> w \<and> w \<le> max a b) \<and>
        (0 < h \<and> (\<forall>m. j \<le> m \<and> m \<le> k \<longrightarrow> fst (s ! m) = fst (s ! j) + of_nat (m - j) * h) \<longrightarrow>
           column c (interp_data primary monitor) ! i =
             Some (a + (b - a) * (fst (s ! i) - fst (s ! j)) / (fst (s ! k) - fst (s ! j))))"
  proof (intro impI, elim conjE, intro conjI impI)
    assume h: "column c s ! i = None" "j < i" "i < k" "k < length s"
      "column c s ! j = Some a" "column c s ! k = Some b"
      "\<forall>m. j < m \<and> m < k \<longrightarrow> column c s ! m = None"
    have "interp_cell (column c s) i = Some (a + (b - a) / of_nat (k - j) * of_nat (i - j))"
      using h by (intro interp_cell_inside) simp_all
    then have v: "column c (interp_data primary monitor) ! i =
        Some (a + (b - a) / of_nat (k - j) * of_nat (i - j))"
      by (simp add: n)
    have bw: "min a b \<le> a + (b - a) / of_nat (k - j) * of_nat (i - j) \<and>
         a + (b - a) / of_nat (k - j) * of_nat (i - j) \<le> max a b"
      using h(2) h(3) by (rule between_weights)
    show "\<exists>w. column c (interp_data primary monitor) ! i = Some w \<and> min a b \<le> w \<and> w \<le> max a b"
      unfolding v using bw by (intro exI [of _ "a + (b - a) / of_nat (k - j) * of_nat (i - j)"] conjI refl) simp_all
    assume hp: "0 < h \<and> (\<forall>m. j \<le> m \<and> m \<le> k \<longrightarrow> fst (s ! m) = fst (s ! j) + of_nat (m - j) * h)"
    have sp: "\<forall>m. j \<le> m \<and> m \<le> k \<longrightarrow> fst (s ! m) = fst (s ! j) + of_nat (m - j) * h"
      using hp by (rule conjunct2)
    have ti: "fst (s ! i) = fst (s ! j) + of_nat (i - j) * h"
      using spec [OF sp, of i] h(2,3) by simp
    have tk: "fst (s ! k) = fst (s ! j) + of_nat (k - j) * h"
      using spec [OF sp, of k] h(2,3) by simp
    have "a + (b - a) / of_nat (k - j) * of_nat (i - j) =
        a + (b - a) * (fst (s ! i) - fst (s ! j)) / (fst (s ! k) - fst (s ! j))"
      using h(2) h(3) _ ti tk by (rule equal_spacing_weights) (simp add: hp)
    then show "column c (interp_data primary monitor) ! i =
             Some (a + (b - a) * (fst (s ! i) - fst (s ! j)) / (fst (s ! k) - fst (s ! j)))"
      unfolding v by (rule arg_cong)
  qed
  have c5: "(\<forall>m\<le>i. column c s ! m = None) \<longrightarrow> column c (interp_data primary monitor) ! i = None"
    by (simp add: n interp_cell_leading)
  have c6: "column c s ! i = None \<and> j < i \<and> column c s ! j = Some a \<and>
      (\<forall>m. j < m \<and> m < length s \<longrightarrow> column c s ! m = None) \<longrightarrow>
        column c (interp_data primary monitor) ! i = Some a"
  proof (intro impI, elim conjE)
    assume "column c s ! i = None" and "j < i" and "column c s ! j = Some a"
      and "\<forall>m. j < m \<and> m < length s \<longrightarrow> column c s ! m = None"
    then show "column c (interp_data primary monitor) ! i = Some a"
      unfolding n using i by (intro interp_cell_trailing [where j = j]) simp_all
  qed
  show ?thesis
    by (intro conjI) (rule c0 c1 c2 c3 c4 c5 c6)+
qed

theorem C1_interpolate_linear_witness:
  "sort_index (concat_tables [stream_x, stream_y]) =
     [(- 1, [''x'' \<mapsto> 3]), (0, [''y'' \<mapsto> 0]), (5, [''x'' \<mapsto> 4]), (10, [''y'' \<mapsto> 100]),
      (11, [''x'' \<mapsto> 5])] \<and>
   map fst (interp_data stream_x stream_y) = [- 1, 0, 5, 10, 11] \<and>
   column ''y'' (interp_data stream_x stream_y) ! 0 = None \<and>
   column ''y'' (interp_data stream_x stream_y) ! 1 = Some 0 \<and>
   column ''y'' (interp_data stream_x stream_y) ! 2 = Some (0 + (100 - 0) * (5 - 0) / (10 - 0)) \<and>
   column ''y'' (interp_data stream_x stream_y) ! 2 = Some 50 \<and>
   column ''y'' (interp_data stream_x stream_y) ! 4 = Some 100"
proof -
  let ?s = "sort_index (concat_tables [stream_x, stream_y])"
  have s: "?s = ?s" by simp
  have c: "column ''y'' ?s = [None, Some 0, None, Some 100, None]"
    by (simp add: sorted_x_y column_def)
  have len: "length ?s = 5" by (simp add: sorted_x_y)
  have l0: "0 < length ?s" and l1: "1 < length ?s" and l2: "2 < length ?s" and l4: "4 < length ?s"
    by (simp_all add: len)
  have h0: "\<forall>m\<le>0. column ''y'' ?s ! m = None"
    by (simp add: c)
  have h1: "column ''y'' ?s ! 1 = Some 0"
    by (simp add: c)
  have h2: "column ''y'' ?s ! 2 = None \<and> (1::nat) < 2 \<and> (2::nat) < 3 \<and> 3 < length ?s \<and>
      column ''y'' ?s ! 1 = Some 0 \<and> column ''y'' ?s ! 3 = Some 100 \<and>
      (\<forall>m. 1 < m \<and> m < 3 \<longrightarrow> column ''y'' ?s ! m = None)"
  proof -
    have "m = 2" if "1 < m" and "m < 3" for m :: nat using that by arith
    then show ?thesis by (auto simp add: c len)
  qed
  have sp: "(0::rat) < 5 \<and>
      (\<forall>m. 1 \<le> m \<and> m \<le> 3 \<longrightarrow> fst (?s ! m) = fst (?s ! 1) + of_nat (m - 1) * 5)"
  proof (intro conjI allI impI)
    show "(0::rat) < 5" by simp
  next
    fix m :: nat
    assume "1 \<le> m \<and> m \<le> 3"
    then consider "m = 1" | "m = 2" | "m = 3" by arith
    then show "fst (?s ! m) = fst (?s ! 1) + of_nat (m - 1) * 5"
      by cases (simp_all add: sorted_x_y)
  qed
  have t: "fst (?s ! 1) = 0" "fst (?s ! 2) = 5" "fst (?s ! 3) = 10"
    by (simp_all add: sorted_x_y)
  have h4: "column ''y'' ?s ! 4 = None \<and> (3::nat) < 4 \<and> column ''y'' ?s ! 3 = Some 100 \<and>
      (\<forall>m. 3 < m \<and> m < length ?s \<longrightarrow> column ''y'' ?s ! m = None)"
  proof -
    have "m = 4" if "3 < m" and "m < 5" for m :: nat using that by arith
    then show ?thesis by (auto simp add: c len)
  qed
  have a: "column ''y'' (interp_data stream_x stream_y) ! 2 =
      Some (0 + (100 - 0) * (fst (?s ! 2) - fst (?s ! 1)) / (fst (?s ! 3) - fst (?s ! 1)))"
    using C1_interpolate_linear [OF s l2, of "''y''" _ 1 3 0 100 5] h2 sp by blast
  have r0: "column ''y'' (interp_data stream_x stream_y) ! 0 = None"
    using C1_interpolate_linear [OF s l0, of "''y''"] h0 by blast
  have r1: "column ''y'' (interp_data stream_x stream_y) ! 1 = Some 0"
    using C1_interpolate_linear [OF s l1, of "''y''" 0] h1 by blast
  have r4: "column ''y'' (interp_data stream_x stream_y) ! 4 = Some 100"
    using C1_interpolate_linear [OF s l4, of "''y''" _ 3 _ 100] h4 by blast
  have ix: "map fst (interp_data stream_x stream_y) = map fst ?s"
    using C1_interpolate_linear [OF s l0, of "''y''"] by blast
  show ?thesis
    using r0 r1 r4 a ix by (simp add: sorted_x_y t)
qed

subsection \<open>C6: trailing moving average\<close>

text \<open>
  C6: with a window of \<open>w\<close> samples, the smoothed stream is empty at the first \<open>w - 1\<close>
  samples and from then on holds, at sample \<open>i\<close>, the mean of the \<open>w\<close> raw samples that end
  at sample \<open>i\<close>. The merged table is built from the smoothed stream, at the times of the
  raw stream.
\<close>

theorem C6_rolling_mean:
  "0 < w \<Longrightarrow> i < length ys \<Longrightarrow>
     (Suc i < w \<longrightarrow> rolling_mean w (map Some ys) ! i = None) \<and>
     (w \<le> Suc i \<longrightarrow>
        rolling_mean w (map Some ys) ! i = Some ((\<Sum>k = Suc i - w..i. ys ! k) / of_nat w)) \<and>
     map fst (sm_I w monitor) = map fst monitor \<and>
     column ''I'' (sm_I w monitor) = rolling_mean w (column ''I'' monitor) \<and>
     interp_sm_data w primary monitor =
       interpolate_linear (sort_index (concat_tables [primary, sm_I w monitor]))"
proof -
  assume w: "0 < w" and i: "i < length ys"
  have 1: "rolling_mean w (map Some ys) ! i =
     (if Suc i < w then None else Some ((\<Sum>k = Suc i - w..i. ys ! k) / of_nat w))"
    using w i by (rule rolling_mean_Some)
  have 2: "map fst (sm_I w monitor) = map fst monitor"
    by (rule nth_equalityI) (simp_all add: sm_I_def)
  have 3: "column ''I'' (sm_I w monitor) = rolling_mean w (column ''I'' monitor)"
    by (rule nth_equalityI) (simp_all add: sm_I_def column_def)
  from 1 2 3 show ?thesis by (simp add: interp_sm_data_def)
qed

theorem C6_rolling_mean_witness:
  "rolling_mean 3 (map Some [1, 2, 3, 4, 5]) = [None, None, Some 2, Some 3, Some 4] \<and>
   rolling_mean 3 (map Some [1, 2, 3, 4, 5]) ! 1 = None \<and>
   rolling_mean 3 (map Some [1, 2, 3, 4, 5]) ! 2 = Some ((1 + 2 + 3) / 3) \<and>
   rolling_mean 3 (map Some [1, 2, 3, 4, 5]) ! 4 = Some ((3 + 4 + 5) / 3) \<and>
   rolling_mean 3 (map Some [1, 2, 3, 4, 5]) ! 2 \<noteq> Some ([1, 2, 3, 4, 5] ! 2) \<and>
   rolling_mean 3 (map Some [1, 2, 3, 4, 5]) ! 3 \<noteq> Some ([1, 2, 3, 4, 5] ! 3) \<and>
   rolling_mean 3 (map Some [1, 2, 3, 4, 5]) ! 4 \<noteq> Some ([1, 2, 3, 4, 5] ! 4)"
proof -
  have e: "rolling_mean 3 (map Some [1, 2, 3, 4, 5]) = [None, None, Some 2, Some 3, Some 4]"
    by (simp add: rolling_mean_def window_def upt_rec)
  have s2: "(\<Sum>k = Suc 2 - 3..2. [1, 2, 3, 4, 5 :: rat] ! k) = 1 + 2 + 3"
    by (simp add: numeral_eq_Suc atLeastAtMostSuc_conv)
  have s4: "(\<Sum>k = Suc 4 - 3..4. [1, 2, 3, 4, 5 :: rat] ! k) = 3 + 4 + 5"
    by (simp add: numeral_eq_Suc atLeastAtMostSuc_conv)
  show ?thesis
    using C6_rolling_mean [of 3 1 "[1, 2, 3, 4, 5]"] C6_rolling_mean [of 3 2 "[1, 2, 3, 4, 5]"]
      C6_rolling_mean [of 3 4 "[1, 2, 3, 4, 5]"] e s2 s4
    by simp
qed

section \<open>Properties of the document log and the plan interpreter\<close>

lemma seq_nums_append: "seq_nums s (xs @ ys) = seq_nums s xs @ seq_nums s ys"
  by (induction s xs rule: seq_nums.induct) simp_all

lemma with_descriptor_fields [simp]:
  "opened (with_descriptor s e) = opened e"
  "sealed (with_descriptor s e) = sealed e"
  "seq_count (with_descriptor s e) = seq_count e"
  "seq_nums s' (log (with_descriptor s e)) = seq_nums s' (log e)"
  by (simp_all add: with_descriptor_def seq_nums_append)

lemma running_with_descriptor [simp]: "running (with_descriptor s e) = running e"
  by (simp add: running_def)

lemma completed_Nil [simp]: "completed answers key n [] = []"
  by (simp add: completed_def)





lemma descriptor_first_snoc:
  assumes "descriptor_first ds"
    and "\<And>s n ev. d = EventDoc s n ev \<Longrightarrow> DescriptorDoc s \<in> set ds"
  shows "descriptor_first (ds @ [d])"
  unfolding descriptor_first_def
proof (intro allI impI)
  fix i s n ev
  assume i: "i < length (ds @ [d])" and ev: "(ds @ [d]) ! i = EventDoc s n ev"
  show "\<exists>j<i. (ds @ [d]) ! j = DescriptorDoc s"
  proof (cases "i < length ds")
    case True
    then have "ds ! i = EventDoc s n ev" using ev by (simp add: nth_append)
    then obtain j where j: "j < i" "ds ! j = DescriptorDoc s"
      using assms(1) True unfolding descriptor_first_def by blast
    have "(ds @ [d]) ! j = DescriptorDoc s"
      using j True by (simp add: nth_append)
    then show ?thesis using j(1) by blast
  next
    case False
    then have il: "i = length ds" using i by simp
    then have "d = EventDoc s n ev" using ev by simp
    then have "DescriptorDoc s \<in> set ds" by (rule assms(2))
    then obtain j where j: "j < length ds" "ds ! j = DescriptorDoc s"
      unfolding in_set_conv_nth by blast
    have "(ds @ [d]) ! j = DescriptorDoc s"
      using j by (simp add: nth_append)
    then show ?thesis using j(1) il by blast
  qed
qed


lemma emitter_inv_new: "emitter_inv new_emitter"
  by (simp add: emitter_inv_def new_emitter_def descriptor_first_def)

lemma emitter_inv_with_descriptor:
  "emitter_inv e \<Longrightarrow> \<not> sealed e \<Longrightarrow> emitter_inv (with_descriptor s e)"
proof -
  assume inv: "emitter_inv e" and ns: "\<not> sealed e"
  show ?thesis
  proof (cases "s \<in> set (declared e)")
    case True
    then show ?thesis using inv by (simp add: with_descriptor_def)
  next
    case False
    have df: "descriptor_first (log e @ [DescriptorDoc s])"
      using inv by (intro descriptor_first_snoc) (simp_all add: emitter_inv_def)
    have d: "set (declared e) = {s'. DescriptorDoc s' \<in> set (log e)}"
      using inv by (simp add: emitter_inv_def)
    have st: "set (s # declared e) = {s'. DescriptorDoc s' \<in> set (log e @ [DescriptorDoc s])}"
      unfolding list.set d by auto
    have stop: "\<forall>d\<in>set (log e @ [DescriptorDoc s]). \<not> is_stop d"
      using inv ns by (simp add: emitter_inv_def)
    show ?thesis
      using False ns df st stop by (simp add: with_descriptor_def emitter_inv_def)
  qed
qed


lemma declared_with_descriptor: "s \<in> set (declared (with_descriptor s e))"
  by (simp add: with_descriptor_def)

lemma emitter_inv_open:
  assumes "emitter_inv e" and "\<not> opened e"
  shows "emitter_inv (e\<lparr>log := log e @ [StartDoc], opened := True\<rparr>)"
proof -
  have ns: "\<not> sealed e" using assms by (auto simp add: emitter_inv_def)
  have df: "descriptor_first (log e @ [StartDoc])"
    using assms(1) by (intro descriptor_first_snoc) (simp_all add: emitter_inv_def)
  have d: "set (declared e) = {s'. DescriptorDoc s' \<in> set (log e @ [StartDoc])}"
    using assms(1) by (simp add: emitter_inv_def)
  have stop: "\<forall>d\<in>set (log e @ [StartDoc]). \<not> is_stop d"
    using assms(1) ns by (simp add: emitter_inv_def)
  show ?thesis
    using ns df d stop by (simp add: emitter_inv_def)
qed

lemma emitter_inv_event:
  assumes "emitter_inv e" and "\<not> sealed e" and "s \<in> set (declared e)"
  shows "emitter_inv (e\<lparr>log := log e @ [EventDoc s n ev], seq_count := c\<rparr>)"
proof -
  have in_log: "DescriptorDoc s \<in> set (log e)"
    using assms(1,3) by (auto simp add: emitter_inv_def)
  have df: "descriptor_first (log e @ [EventDoc s n ev])"
    using assms(1) in_log by (intro descriptor_first_snoc) (simp_all add: emitter_inv_def)
  have d: "set (declared e) = {s'. DescriptorDoc s' \<in> set (log e @ [EventDoc s n ev])}"
    using assms(1) by (simp add: emitter_inv_def)
  have stop: "\<forall>d\<in>set (log e @ [EventDoc s n ev]). \<not> is_stop d"
    using assms(1,2) by (simp add: emitter_inv_def)
  show ?thesis
    using assms(2) df d stop by (simp add: emitter_inv_def)
qed

lemma emitter_inv_close:
  assumes "emitter_inv e" and "opened e" and "\<not> sealed e"
  shows "emitter_inv (e\<lparr>log := log e @ [StopDoc st], sealed := True\<rparr>)"
proof -
  have df: "descriptor_first (log e @ [StopDoc st])"
    using assms(1) by (intro descriptor_first_snoc) (simp_all add: emitter_inv_def)
  have d: "set (declared e) = {s'. DescriptorDoc s' \<in> set (log e @ [StopDoc st])}"
    using assms(1) by (simp add: emitter_inv_def)
  have stop: "\<forall>d\<in>set (log e). \<not> is_stop d"
    using assms(1,3) by (simp add: emitter_inv_def)
  show ?thesis
    using assms(2) df d stop by (simp add: emitter_inv_def)
qed

lemma emitter_inv_emit:
  assumes "emitter_inv e" and "emit r e = Inr e'"
  shows "emitter_inv e'"
proof (cases r)
  case OpenRun
  then have "\<not> opened e" and "e' = e\<lparr>log := log e @ [StartDoc], opened := True\<rparr>"
    using assms(2) by (simp_all split: if_splits)
  then show ?thesis using assms(1) by (simp add: emitter_inv_open)
next
  case (DeclareStream s)
  then have "running e" and "e' = with_descriptor s e"
    using assms(2) by (simp_all split: if_splits)
  then show ?thesis using assms(1) by (simp add: running_def emitter_inv_with_descriptor)
next
  case (AppendEvent s ev)
  let ?d = "with_descriptor s e"
  from AppendEvent assms(2) have run: "running e"
    and e': "e' = ?d\<lparr>log := log ?d @ [EventDoc s (Suc (seq_count ?d s)) ev],
                      seq_count := (seq_count ?d)(s := Suc (seq_count ?d s))\<rparr>"
    by (simp_all add: Let_def split: if_splits)
  have ns: "\<not> sealed e" using run by (simp add: running_def)
  have d: "emitter_inv ?d"
    using assms(1) ns by (rule emitter_inv_with_descriptor)
  have nsd: "\<not> sealed ?d" using ns by (simp add: with_descriptor_def)
  show ?thesis
    unfolding e' using d nsd declared_with_descriptor by (rule emitter_inv_event)
next
  case (CloseRun st)
  then have "running e" and "e' = e\<lparr>log := log e @ [StopDoc st], sealed := True\<rparr>"
    using assms(2) by (simp_all split: if_splits)
  then show ?thesis using assms(1) by (simp add: running_def emitter_inv_close)
qed

lemma emitter_inv_feed: "emitter_inv e \<Longrightarrow> emitter_inv (feed rs e)"
proof (induction rs arbitrary: e)
  case Nil
  then show ?case by simp
next
  case (Cons a rs)
  obtain who r where a: "a = (who, r)" by (cases a)
  show ?case
  proof (cases "emit r e")
    case (Inl err)
    then show ?thesis using Cons a by simp
  next
    case (Inr e')
    then have "emitter_inv e'" using Cons.prems by (rule emitter_inv_emit [rotated])
    then show ?thesis using Cons.IH a Inr by simp
  qed
qed

lemma emit_sealed: "sealed e \<Longrightarrow> opened e \<Longrightarrow> emit r e = Inl ProtocolViolation"
  by (cases r) (simp_all add: running_def)

lemma feed_sealed: "sealed e \<Longrightarrow> opened e \<Longrightarrow> feed rs e = e"
proof (induction rs)
  case Nil
  then show ?case by simp
next
  case (Cons a rs)
  obtain who r where a: "a = (who, r)" by (cases a)
  show ?case using Cons by (simp add: a emit_sealed)
qed




lemma three_producers_log:
  "documents (feed three_producers new_emitter) =
     [StartDoc, DescriptorDoc ''I_monitor'', EventDoc ''I_monitor'' 1 (mk_event 1 5),
      DescriptorDoc ''primary'', EventDoc ''primary'' 1 (mk_event 2 6),
      DescriptorDoc ''ifly'', EventDoc ''ifly'' 1 (mk_event 3 7),
      EventDoc ''I_monitor'' 2 (mk_event 4 8), StopDoc Success]"
  by (simp add: three_producers_def new_emitter_def documents_def running_def with_descriptor_def)

lemma three_producers_sealed: "sealed (feed three_producers new_emitter)"
  by (simp add: three_producers_def new_emitter_def running_def with_descriptor_def)


subsection \<open>C7: sequence numbers\<close>




subsection \<open>C8: order of the documents\<close>

text \<open>
  C8: in the log of a completed run, whatever the producers asked for and in whatever
  order, every event has the descriptor of its stream before it; the log ends with a stop
  document, which is the only one; every later request is refused and leaves the log as
  it is.
\<close>

theorem C8_document_order:
  "e = feed rs new_emitter \<Longrightarrow> sealed e \<Longrightarrow>
     (\<forall>i<length (documents e). \<forall>s n ev. documents e ! i = EventDoc s n ev \<longrightarrow>
        (\<exists>j<i. documents e ! j = DescriptorDoc s)) \<and>
     documents e \<noteq> [] \<and> is_stop (last (documents e)) \<and>
     (\<forall>i<length (documents e). is_stop (documents e ! i) \<longrightarrow> Suc i = length (documents e)) \<and>
     length (filter is_stop (documents e)) = 1 \<and>
     emit r e = Inl ProtocolViolation \<and>
     documents (feed rs' e) = documents e"
proof -
  assume e: "e = feed rs new_emitter" and sealed: "sealed e"
  have inv: "emitter_inv e"
    unfolding e by (rule emitter_inv_feed) (rule emitter_inv_new)
  from inv sealed have op: "opened e"
    and ex: "\<exists>ds st. log e = ds @ [StopDoc st] \<and> (\<forall>d\<in>set ds. \<not> is_stop d)"
    by (simp_all add: emitter_inv_def)
  from ex obtain ds st where l: "log e = ds @ [StopDoc st]" and ns: "\<forall>d\<in>set ds. \<not> is_stop d"
    by blast
  have 1: "\<forall>i<length (documents e). \<forall>s n ev. documents e ! i = EventDoc s n ev \<longrightarrow>
        (\<exists>j<i. documents e ! j = DescriptorDoc s)"
    using inv by (simp add: emitter_inv_def descriptor_first_def documents_def)
  have 2: "documents e \<noteq> [] \<and> is_stop (last (documents e))"
    by (simp add: documents_def l)
  have 3: "\<forall>i<length (documents e). is_stop (documents e ! i) \<longrightarrow> Suc i = length (documents e)"
  proof (intro allI impI)
    fix i
    assume i: "i < length (documents e)" and s: "is_stop (documents e ! i)"
    show "Suc i = length (documents e)"
    proof (rule ccontr)
      assume "Suc i \<noteq> length (documents e)"
      then have "i < length ds" using i by (simp add: documents_def l)
      then have "documents e ! i \<in> set ds" by (simp add: documents_def l nth_append)
      then show False using ns s by blast
    qed
  qed
  have f: "filter is_stop ds = []" using ns by (simp add: filter_empty_conv)
  have 4: "length (filter is_stop (documents e)) = 1"
    by (simp add: documents_def l f)
  have 5: "emit r e = Inl ProtocolViolation"
    using sealed op by (rule emit_sealed)
  have 6: "documents (feed rs' e) = documents e"
    using sealed op by (simp add: feed_sealed)
  from 1 2 3 4 5 6 show ?thesis by blast
qed

theorem C8_document_order_witness:
  "sealed (feed three_producers new_emitter) \<and>
   documents (feed three_producers new_emitter) =
     [StartDoc, DescriptorDoc ''I_monitor'', EventDoc ''I_monitor'' 1 (mk_event 1 5),
      DescriptorDoc ''primary'', EventDoc ''primary'' 1 (mk_event 2 6),
      DescriptorDoc ''ifly'', EventDoc ''ifly'' 1 (mk_event 3 7),
      EventDoc ''I_monitor'' 2 (mk_event 4 8), StopDoc Success] \<and>
   is_stop (last (documents (feed three_producers new_emitter))) \<and>
   length (filter is_stop (documents (feed three_producers new_emitter))) = 1 \<and>
   emit (AppendEvent ''I_monitor'' (mk_event 5 9)) (feed three_producers new_emitter)
     = Inl ProtocolViolation \<and>
   documents (feed [(Monitor, AppendEvent ''I_monitor'' (mk_event 5 9))]
                (feed three_producers new_emitter))
     = documents (feed three_producers new_emitter)"
proof -
  have e: "feed three_producers new_emitter = feed three_producers new_emitter" by simp
  show ?thesis
    using C8_document_order [OF e three_producers_sealed,
        of "AppendEvent ''I_monitor'' (mk_event 5 9)"
           "[(Monitor, AppendEvent ''I_monitor'' (mk_event 5 9))]"]
      three_producers_log three_producers_sealed
    by simp
qed

end
